theory Spec2Isabelle
  imports Main "HOL-Library.Word" "HOL-Library.Sublist"
begin

section \<open>JavaScript strings\<close>

text \<open>
  A JavaScript string is a sequence of UTF-16 code units.  String concatenation
  (\<^verbatim>\<open>+=\<close>) is list append and the empty string is the empty list; the empty
  string is the only falsy string.
\<close>

type_synonym jschar = "16 word"
type_synonym jsstring = "jschar list"

definition js :: "string \<Rightarrow> jsstring" where
  \<comment> \<open>an ASCII literal of the source, as code units\<close>
  "js s = map of_char s"

definition isWhiteSpace :: "jschar \<Rightarrow> bool" where
  \<comment> \<open>what \<^verbatim>\<open>String.prototype.trim\<close> strips: ECMAScript WhiteSpace (TAB, VT, FF,
      ZWNBSP and the Unicode space separators) and LineTerminator (LF, CR, LS, PS)\<close>
  "isWhiteSpace ch \<longleftrightarrow>
     ch \<in> {0x0009, 0x000A, 0x000B, 0x000C, 0x000D, 0x0020, 0x00A0, 0x1680,
           0x2028, 0x2029, 0x202F, 0x205F, 0x3000, 0xFEFF}
     \<or> (0x2000 \<le> ch \<and> ch \<le> 0x200A)"

definition trim :: "jsstring \<Rightarrow> jsstring" where
  "trim s = rev (dropWhile isWhiteSpace (rev (dropWhile isWhiteSpace s)))"

definition blank :: "jsstring \<Rightarrow> bool" where
  \<comment> \<open>empty, or white space only\<close>
  "blank s \<longleftrightarrow> (\<forall>ch \<in> set s. isWhiteSpace ch)"

fun str_includes :: "jsstring \<Rightarrow> jsstring \<Rightarrow> bool" where
  \<comment> \<open>\<^verbatim>\<open>s.includes(sub)\<close>: \<open>sub\<close> occurs in \<open>s\<close> as a contiguous run\<close>
  "str_includes [] sub = (sub = [])"
| "str_includes (x # xs) sub = (prefix sub (x # xs) \<or> str_includes xs sub)"

definition opt_includes :: "jsstring option \<Rightarrow> jsstring \<Rightarrow> bool" where
  \<comment> \<open>\<^verbatim>\<open>contentType?.includes(sub)\<close> in a condition: a null header is falsy\<close>
  "opt_includes ct sub = (case ct of None \<Rightarrow> False | Some s \<Rightarrow> str_includes s sub)"

section \<open>Data model of \<^verbatim>\<open>RagChat.tsx\<close>\<close>

datatype sender = User | Bot

record Message =
  sender :: sender
  msg_text :: jsstring

text \<open>The four \<^verbatim>\<open>useState\<close> cells of the component.\<close>

record session =
  messages :: "Message list"
  input :: jsstring
  loading :: bool
  isStreaming :: bool

text \<open>
  What \<^verbatim>\<open>fetch\<close> resolves to, as far as \<^verbatim>\<open>sendMessage\<close> looks at it: the status
  code, the \<^verbatim>\<open>content-type\<close> header (\<open>None\<close> when \<^verbatim>\<open>headers.get\<close> returns null)
  and whether \<^verbatim>\<open>res.body\<close> is a stream (\<open>False\<close> when it is null).
\<close>

record response =
  status :: nat
  contentType :: "jsstring option"
  hasBody :: bool

definition ok :: "response \<Rightarrow> bool" where
  \<comment> \<open>\<^verbatim>\<open>res.ok\<close>: the status is in the range 200 to 299\<close>
  "ok res \<longleftrightarrow> 200 \<le> status res \<and> status res \<le> 299"

text \<open>
  What \<^verbatim>\<open>res.json()\<close> resolves to is looked at through its \<^verbatim>\<open>answer\<close> property
  only: \<open>None\<close> when the value has no such property, \<open>Some s\<close> when it is the string
  \<open>s\<close>.  The interface \<^verbatim>\<open>Message\<close> types \<^verbatim>\<open>text\<close> as a string, so only string
  answers are modelled.  The body \<^verbatim>\<open>null\<close> has no \<^verbatim>\<open>answer\<close> property to look
  at: the property access \<^verbatim>\<open>data.answer\<close> throws.  It stands inside the state
  updater, so it throws when the updater is run, outside \<^verbatim>\<open>sendMessage\<close> and its
  \<^verbatim>\<open>catch\<close> block; that case is the delivery \<open>JsonResolvedNull\<close> of \<open>deliver\<close> below.
\<close>

definition answer_or_default :: "jsstring option \<Rightarrow> jsstring" where
  \<comment> \<open>\<^verbatim>\<open>data.answer || "No response received."\<close>: the right operand is taken when
      the left one is falsy, that is undefined or the empty string\<close>
  "answer_or_default a =
     (case a of
        None \<Rightarrow> js ''No response received.''
      | Some s \<Rightarrow> if s = [] then js ''No response received.'' else s)"

section \<open>The controller as a transition system\<close>

text \<open>
  \<^verbatim>\<open>sendMessage\<close> is an async function: it runs until an \<^verbatim>\<open>await\<close>, is suspended,
  and is resumed by the event loop when the awaited promise settles.  \<open>pc\<close> is the
  suspension point of the running invocation, with the local variable
  \<^verbatim>\<open>accumulatedText\<close> that is live across the \<^verbatim>\<open>await reader.read()\<close>.
\<close>

datatype pc =
    Idle
  | AwaitFetch
  | AwaitRead jsstring
  | AwaitJson

text \<open>
  The configuration: the component state, the queries of the requests posted to
  \<^verbatim>\<open>/api/rag\<close> so far (the \<^verbatim>\<open>query\<close> field of each request body, oldest first),
  and the suspension point.
\<close>

record config = session +
  sent :: "jsstring list"
  pc :: pc

definition init :: config where
  "init = \<lparr>messages = [], input = [], loading = False, isStreaming = False,
           sent = [], pc = Idle\<rparr>"

text \<open>
  The events of the event loop: the user edits the input field, the user clicks Send
  or presses Enter (both call \<^verbatim>\<open>sendMessage\<close>), and the promises of \<^verbatim>\<open>fetch\<close>,
  \<^verbatim>\<open>reader.read()\<close> and \<^verbatim>\<open>res.json()\<close> settle.  \<open>ReadChunk s\<close> carries the text
  that \<^verbatim>\<open>decoder.decode(value, {stream: true})\<close> returns for the chunk read.
\<close>

datatype event =
    Typed jsstring
  | Submit
  | FetchRejected
  | FetchResolved response
  | ReadChunk jsstring
  | ReadDone
  | ReadRejected
  | JsonResolved "jsstring option"
  | JsonRejected

text \<open>
  The effects \<^verbatim>\<open>sendMessage\<close> performs, one per call in the source: the two shapes
  of \<^verbatim>\<open>setMessages\<close> updater (append an element; copy the array and overwrite the
  element at \<^verbatim>\<open>length - 1\<close> when the array is not empty), the three other setters,
  and the call of \<^verbatim>\<open>fetch\<close>.  A state updater is applied to the state when the setter
  is called, so the updaters act in the order of the calls.  (React may run an updater
  later, but before the state is next observed; the updaters of the source read
  nothing that changes in between except \<^verbatim>\<open>accumulatedText\<close>, which only grows to
  the value the next updater writes.)
\<close>

datatype effect =
    AppendMessage Message
  | ReplaceLast Message
  | SetInput jsstring
  | SetLoading bool
  | SetIsStreaming bool
  | Fetch jsstring

fun perform :: "effect \<Rightarrow> config \<Rightarrow> config" where
  "perform (AppendMessage m) c = c\<lparr>messages := messages c @ [m]\<rparr>"
| "perform (ReplaceLast m) c =
     c\<lparr>messages :=
         (if length (messages c) > 0
          then (messages c)[length (messages c) - 1 := m]
          else messages c)\<rparr>"
| "perform (SetInput s) c = c\<lparr>input := s\<rparr>"
| "perform (SetLoading b) c = c\<lparr>loading := b\<rparr>"
| "perform (SetIsStreaming b) c = c\<lparr>isStreaming := b\<rparr>"
| "perform (Fetch q) c = c\<lparr>sent := sent c @ [q]\<rparr>"

definition catch_finally :: "effect list" where
  \<comment> \<open>the \<^verbatim>\<open>catch\<close> block followed by the \<^verbatim>\<open>finally\<close> block\<close>
  "catch_finally =
     [ReplaceLast \<lparr>sender = Bot,
                   msg_text = js ''Sorry, I encountered an error. Please try again.''\<rparr>,
      SetIsStreaming False,
      SetLoading False]"

definition sendMessage :: "config \<Rightarrow> effect list \<times> pc" where
  \<comment> \<open>from the call up to \<^verbatim>\<open>await fetch(...)\<close>\<close>
  "sendMessage c =
     (if trim (input c) = [] \<or> loading c then ([], pc c)
      else
        let userQuery = trim (input c) in
        ([AppendMessage \<lparr>sender = User, msg_text = userQuery\<rparr>,
          SetInput [],
          SetLoading True,
          SetIsStreaming True,
          AppendMessage \<lparr>sender = Bot, msg_text = []\<rparr>,
          Fetch userQuery],
         AwaitFetch))"

fun resume :: "pc \<Rightarrow> event \<Rightarrow> effect list \<times> pc" where
  \<comment> \<open>from one \<^verbatim>\<open>await\<close> to the next, or to the end of \<^verbatim>\<open>sendMessage\<close>\<close>
  "resume AwaitFetch FetchRejected = (catch_finally, Idle)"
| "resume AwaitFetch (FetchResolved res) =
     (if \<not> ok res then (catch_finally, Idle)
      else if opt_includes (contentType res) (js ''text/plain'') then
        (if hasBody res then ([], AwaitRead []) else (catch_finally, Idle))
      else if opt_includes (contentType res) (js ''application/json'') then ([], AwaitJson)
      else (catch_finally, Idle))"
| "resume (AwaitRead accumulatedText) ReadDone =
     ([SetIsStreaming False, SetLoading False], Idle)"
| "resume (AwaitRead accumulatedText) (ReadChunk chunk) =
     ([ReplaceLast \<lparr>sender = Bot, msg_text = accumulatedText @ chunk\<rparr>],
      AwaitRead (accumulatedText @ chunk))"
| "resume (AwaitRead accumulatedText) ReadRejected = (catch_finally, Idle)"
| "resume AwaitJson (JsonResolved a) =
     ([ReplaceLast \<lparr>sender = Bot, msg_text = answer_or_default a\<rparr>,
       SetIsStreaming False,
       SetLoading False],
      Idle)"
| "resume AwaitJson JsonRejected = (catch_finally, Idle)"
| "resume p e = ([], p)"

text \<open>
  The handler of an event: the effects it performs, in order, and the next suspension
  point.  A settled promise that no invocation awaits does not occur; the last
  equation of \<open>resume\<close> leaves the configuration as it is.  The input field is
  disabled while \<open>loading\<close> is true; the model is more liberal and lets \<open>Typed\<close> occur
  at any time.  One suspension point is enough: a call of \<^verbatim>\<open>sendMessage\<close> passes its
  guard only when \<open>loading\<close> is false, and in every configuration reached from \<open>init\<close>
  no invocation is suspended then (lemma \<open>accept_only_when_idle\<close> below).
\<close>

definition handler :: "config \<Rightarrow> event \<Rightarrow> effect list \<times> pc" where
  "handler c e =
     (case e of
        Typed s \<Rightarrow> ([SetInput s], pc c)
      | Submit \<Rightarrow> sendMessage c
      | _ \<Rightarrow> resume (pc c) e)"

fun states :: "config \<Rightarrow> effect list \<Rightarrow> config list" where
  \<comment> \<open>the configuration after each effect of a list\<close>
  "states c [] = []"
| "states c (f # fs) = perform f c # states (perform f c) fs"

definition step :: "config \<Rightarrow> event \<Rightarrow> config" where
  "step c e = (last (c # states c (fst (handler c e))))\<lparr>pc := snd (handler c e)\<rparr>"

definition run :: "config \<Rightarrow> event list \<Rightarrow> config" where
  "run c es = foldl step c es"

fun visited :: "config \<Rightarrow> event list \<Rightarrow> config list" where
  \<comment> \<open>every configuration passed through, effect by effect\<close>
  "visited c [] = [c]"
| "visited c (e # es) = c # states c (fst (handler c e)) @ visited (step c e) es"

definition trailing :: "config \<Rightarrow> Message" where
  \<comment> \<open>the trailing message: the last element of the message sequence\<close>
  "trailing c = last (messages c)"

text \<open>
  The component state is coherent when no invocation of \<^verbatim>\<open>sendMessage\<close> is suspended
  and both flags are false, or one is suspended, both flags are true and the message
  sequence ends in a bot message.
\<close>

definition coherent :: "config \<Rightarrow> bool" where
  "coherent c \<longleftrightarrow>
     (loading c \<longleftrightarrow> pc c \<noteq> Idle) \<and> (isStreaming c \<longleftrightarrow> pc c \<noteq> Idle)
     \<and> (pc c \<noteq> Idle \<longrightarrow> messages c \<noteq> [] \<and> sender (last (messages c)) = Bot)"

text \<open>
  The life of the component.  While it is mounted it has a configuration and its
  handlers run.  When \<^verbatim>\<open>res.json()\<close> resolves to \<^verbatim>\<open>null\<close>, the resumed
  \<^verbatim>\<open>sendMessage\<close> calls \<^verbatim>\<open>setMessages\<close> with its updater, \<^verbatim>\<open>setIsStreaming(false)\<close>
  and, in the \<^verbatim>\<open>finally\<close> block, \<^verbatim>\<open>setLoading(false)\<close>, and returns: nothing is
  thrown inside the \<^verbatim>\<open>try\<close> block.  The updater reads \<^verbatim>\<open>data.answer\<close> when it is run
  for the next render and throws there; the component has no error boundary, the
  render fails and the component is gone: no state is shown and no handler runs
  again.
\<close>

datatype component = Mounted config | Crashed

datatype delivery = Event event | JsonResolvedNull

fun deliver :: "component \<Rightarrow> delivery \<Rightarrow> component" where
  "deliver Crashed d = Crashed"
| "deliver (Mounted c) (Event e) = Mounted (step c e)"
| "deliver (Mounted c) JsonResolvedNull = (if pc c = AwaitJson then Crashed else Mounted c)"

definition deliver_all :: "component \<Rightarrow> delivery list \<Rightarrow> component" where
  "deliver_all m ds = foldl deliver m ds"

section \<open>Facts about strings\<close>

lemma trim_Nil_iff: "trim s = [] \<longleftrightarrow> blank s"
  unfolding blank_def
proof
  assume "trim s = []"
  then have all: "\<forall>ch \<in> set (dropWhile isWhiteSpace s). isWhiteSpace ch"
    by (simp add: trim_def)
  have "dropWhile isWhiteSpace s = []"
  proof (rule ccontr)
    assume ne: "dropWhile isWhiteSpace s \<noteq> []"
    then have "\<not> isWhiteSpace (hd (dropWhile isWhiteSpace s))"
      by (rule hd_dropWhile)
    moreover have "hd (dropWhile isWhiteSpace s) \<in> set (dropWhile isWhiteSpace s)"
      using ne by simp
    ultimately show False using all by blast
  qed
  then show "\<forall>ch \<in> set s. isWhiteSpace ch"
    by simp
next
  assume "\<forall>ch \<in> set s. isWhiteSpace ch"
  then have d: "dropWhile isWhiteSpace s = []"
    by simp
  show "trim s = []"
    unfolding trim_def d by simp
qed

lemma trim_split:
  "\<exists>pre suf. s = pre @ trim s @ suf \<and> blank pre \<and> blank suf"
proof -
  let ?P = isWhiteSpace
  have 1: "s = takeWhile ?P s @ dropWhile ?P s" by simp
  let ?d = "dropWhile ?P s"
  have 2: "rev ?d = takeWhile ?P (rev ?d) @ dropWhile ?P (rev ?d)" by simp
  have "?d = rev (dropWhile ?P (rev ?d)) @ rev (takeWhile ?P (rev ?d))"
    by (metis 2 rev_append rev_rev_ident)
  then have "s = takeWhile ?P s @ trim s @ rev (takeWhile ?P (rev ?d))"
    unfolding trim_def by (metis 1)
  moreover have "blank (takeWhile ?P s)"
    by (auto simp: blank_def dest: set_takeWhileD)
  moreover have "blank (rev (takeWhile ?P (rev ?d)))"
    by (auto simp: blank_def dest: set_takeWhileD)
  ultimately show ?thesis by blast
qed

lemma last_dropWhile_ne:
  assumes "dropWhile P xs \<noteq> []"
  shows "last (dropWhile P xs) = last xs"
proof -
  have "last xs = last (takeWhile P xs @ dropWhile P xs)" by simp
  also have "\<dots> = last (dropWhile P xs)" using assms by (rule last_appendR)
  finally show ?thesis by simp
qed

lemma trim_ends:
  assumes "trim s \<noteq> []"
  shows "\<not> isWhiteSpace (hd (trim s)) \<and> \<not> isWhiteSpace (last (trim s))"
proof -
  let ?P = isWhiteSpace
  let ?d = "dropWhile ?P s"
  let ?e = "dropWhile ?P (rev ?d)"
  from assms have e: "?e \<noteq> []" by (simp add: trim_def)
  have d: "?d \<noteq> []" using e by (cases "?d = []") simp_all
  have "last (trim s) = hd ?e" using e by (simp add: trim_def last_rev)
  moreover have "\<not> ?P (hd ?e)" using e by (rule hd_dropWhile)
  ultimately have l: "\<not> ?P (last (trim s))" by simp
  have nd: "\<not> ?P (hd ?d)" using d by (rule hd_dropWhile)
  have "hd (trim s) = last ?e" using e by (simp add: trim_def hd_rev)
  also have "\<dots> = last (rev ?d)" using e by (rule last_dropWhile_ne)
  also have "\<dots> = hd ?d" using d by (simp add: last_rev)
  finally have "\<not> ?P (hd (trim s))" using nd by simp
  with l show ?thesis by simp
qed

section \<open>Single steps and runs\<close>

lemma run_Nil: "run c [] = c"
  by (simp add: run_def)

lemma run_Cons: "run c (e # es) = run (step c e) es"
  by (simp add: run_def)

lemma run_append: "run c (es @ fs) = run (run c es) fs"
  by (simp add: run_def)

lemma step_Typed: "step c (Typed s) = c\<lparr>input := s\<rparr>"
  by (simp add: step_def handler_def)

lemma handler_Submit_reject:
  assumes "blank (input c) \<or> loading c"
  shows "handler c Submit = ([], pc c)"
  using assms by (simp add: handler_def sendMessage_def trim_Nil_iff)

lemma step_Submit_reject:
  assumes "blank (input c) \<or> loading c"
  shows "step c Submit = c"
  by (simp add: step_def handler_Submit_reject [OF assms])

lemma accept_effects:
  assumes "\<not> blank (input c)" "\<not> loading c"
  shows "fst (handler c Submit) =
    [AppendMessage \<lparr>sender = User, msg_text = trim (input c)\<rparr>, SetInput [], SetLoading True,
     SetIsStreaming True, AppendMessage \<lparr>sender = Bot, msg_text = []\<rparr>, Fetch (trim (input c))]"
  using assms by (simp add: handler_def sendMessage_def trim_Nil_iff Let_def)

lemma step_Submit_accept:
  assumes "\<not> blank (input c)" "\<not> loading c"
  shows "step c Submit = c\<lparr>messages := messages c @ [\<lparr>sender = User, msg_text = trim (input c)\<rparr>, \<lparr>sender = Bot, msg_text = []\<rparr>],
     input := [], loading := True, isStreaming := True, sent := sent c @ [trim (input c)], pc := AwaitFetch\<rparr>"
  using assms by (simp add: step_def handler_def sendMessage_def trim_Nil_iff Let_def)

lemma step_FetchResolved_stream:
  assumes "pc c = AwaitFetch" "ok res" "opt_includes (contentType res) (js ''text/plain'')" "hasBody res"
  shows "step c (FetchResolved res) = c\<lparr>pc := AwaitRead []\<rparr>"
  using assms by (simp add: step_def handler_def)

lemma step_FetchResolved_json:
  assumes "pc c = AwaitFetch" "ok res" "\<not> opt_includes (contentType res) (js ''text/plain'')"
    "opt_includes (contentType res) (js ''application/json'')"
  shows "step c (FetchResolved res) = c\<lparr>pc := AwaitJson\<rparr>"
  using assms by (simp add: step_def handler_def)

lemma step_ReadChunk:
  assumes "pc c = AwaitRead acc"
  shows "step c (ReadChunk x) =
    c\<lparr>messages := (if length (messages c) > 0 then (messages c)[length (messages c) - 1 := \<lparr>sender = Bot, msg_text = acc @ x\<rparr>] else messages c),
      pc := AwaitRead (acc @ x)\<rparr>"
  using assms by (simp add: step_def handler_def)

lemma step_ReadDone:
  assumes "pc c = AwaitRead acc"
  shows "step c ReadDone = c\<lparr>isStreaming := False, loading := False, pc := Idle\<rparr>"
  using assms by (simp add: step_def handler_def)

lemma step_JsonResolved:
  assumes "pc c = AwaitJson"
  shows "step c (JsonResolved a) =
    c\<lparr>messages := (if length (messages c) > 0 then (messages c)[length (messages c) - 1 := \<lparr>sender = Bot, msg_text = answer_or_default a\<rparr>] else messages c),
      isStreaming := False, loading := False, pc := Idle\<rparr>"
  using assms by (simp add: step_def handler_def)

lemma step_catch:
  assumes "handler c e = (catch_finally, Idle)" "messages c \<noteq> []"
  shows "trailing (step c e) = \<lparr>sender = Bot, msg_text = js ''Sorry, I encountered an error. Please try again.''\<rparr>
     \<and> \<not> isStreaming (step c e) \<and> \<not> loading (step c e) \<and> pc (step c e) = Idle"
  using assms by (simp add: step_def catch_finally_def trailing_def last_list_update)

lemma run_chunks:
  assumes "pc c = AwaitRead acc" "messages c \<noteq> []"
  shows "run c (map ReadChunk cs) =
    c\<lparr>messages := (if cs = [] then messages c
                    else (messages c)[length (messages c) - 1 := \<lparr>sender = Bot, msg_text = acc @ concat cs\<rparr>]),
      pc := AwaitRead (acc @ concat cs)\<rparr>"
  using assms
proof (induction cs arbitrary: c acc)
  case Nil
  then show ?case by (simp add: run_Nil)
next
  case (Cons x xs)
  let ?c = "step c (ReadChunk x)"
  have s: "?c = c\<lparr>messages := (messages c)[length (messages c) - 1 := \<lparr>sender = Bot, msg_text = acc @ x\<rparr>],
      pc := AwaitRead (acc @ x)\<rparr>"
    using Cons.prems by (simp add: step_ReadChunk)
  have "pc ?c = AwaitRead (acc @ x)" "messages ?c \<noteq> []"
    using Cons.prems by (simp_all add: s)
  from Cons.IH [OF this] show ?case
    by (simp add: run_Cons s)
qed

section \<open>Invariants of the transition system\<close>

text \<open>
  Coherence holds initially and is kept by every event.  A submission is accepted only
  when \<open>loading\<close> is false, so by coherence only when no invocation is suspended:
  invocations of \<^verbatim>\<open>sendMessage\<close> never overlap.
\<close>

lemma coherent_init: "coherent init"
  by (simp add: coherent_def init_def)

lemma coherent_step:
  assumes "coherent c"
  shows "coherent (step c e)"
proof (cases e)
  case (Typed s)
  with assms show ?thesis by (simp add: step_Typed coherent_def)
next
  case Submit
  show ?thesis
  proof (cases "blank (input c) \<or> loading c")
    case True
    then have "step c Submit = c" by (rule step_Submit_reject)
    with assms Submit show ?thesis by simp
  next
    case False
    then show ?thesis
      using assms by (simp add: Submit step_Submit_accept coherent_def)
  qed
next
  case FetchRejected
  with assms show ?thesis
    by (cases "pc c") (simp_all add: step_def handler_def coherent_def catch_finally_def last_list_update)
next
  case (FetchResolved res)
  with assms show ?thesis
    by (cases "pc c") (simp_all add: step_def handler_def coherent_def catch_finally_def last_list_update)
next
  case (ReadChunk x)
  with assms show ?thesis
    by (cases "pc c") (simp_all add: step_def handler_def coherent_def catch_finally_def last_list_update)
next
  case ReadDone
  with assms show ?thesis
    by (cases "pc c") (simp_all add: step_def handler_def coherent_def catch_finally_def last_list_update)
next
  case ReadRejected
  with assms show ?thesis
    by (cases "pc c") (simp_all add: step_def handler_def coherent_def catch_finally_def last_list_update)
next
  case (JsonResolved d)
  with assms show ?thesis
    by (cases "pc c") (simp_all add: step_def handler_def coherent_def catch_finally_def last_list_update)
next
  case JsonRejected
  with assms show ?thesis
    by (cases "pc c") (simp_all add: step_def handler_def coherent_def catch_finally_def last_list_update)
qed

lemma coherent_run: "coherent c \<Longrightarrow> coherent (run c es)"
  by (induction es arbitrary: c) (simp_all add: run_Nil run_Cons coherent_step)

lemma accept_only_when_idle:
  assumes "\<not> loading (run init es)"
  shows "pc (run init es) = Idle"
proof -
  have "coherent (run init es)" using coherent_init by (rule coherent_run)
  with assms show ?thesis by (simp add: coherent_def)
qed

text \<open>
  What the effects of a resumption can be, and what they leave alone.
\<close>

lemma resume_effects:
  assumes "f \<in> set (fst (resume p e))"
  shows "(\<exists>t. f = ReplaceLast \<lparr>sender = Bot, msg_text = t\<rparr>) \<or> f = SetIsStreaming False \<or> f = SetLoading False"
  using assms
  by (induction p e rule: resume.induct) (auto simp: catch_finally_def split: if_splits)

lemma perform_resume_effect:
  assumes "f \<in> set (fst (resume p e))"
  shows "length (messages (perform f c)) = length (messages c)"
    and "butlast (messages (perform f c)) = butlast (messages c)"
    and "input (perform f c) = input c"
    and "sent (perform f c) = sent c"
    and "messages c \<noteq> [] \<and> sender (last (messages c)) = Bot
         \<longrightarrow> sender (last (messages (perform f c))) = Bot"
  using resume_effects [OF assms] by (auto simp: butlast_list_update last_list_update)

lemma states_frame:
  assumes "\<forall>f \<in> set fs. \<forall>c. length (messages (perform f c)) = length (messages c)
            \<and> butlast (messages (perform f c)) = butlast (messages c)"
  shows "length (messages (last (c # states c fs))) = length (messages c)
         \<and> butlast (messages (last (c # states c fs))) = butlast (messages c)"
  using assms by (induction fs arbitrary: c) simp_all

lemma states_preserve:
  assumes "\<forall>f \<in> set fs. \<forall>c. P c \<longrightarrow> P (perform f c)" "P c"
  shows "P (last (c # states c fs))"
  using assms by (induction fs arbitrary: c) simp_all

lemma step_frame:
  assumes "e \<noteq> Submit"
  shows "length (messages (step c e)) = length (messages c)
         \<and> butlast (messages (step c e)) = butlast (messages c)"
proof (cases "\<exists>s. e = Typed s")
  case True
  then show ?thesis by (auto simp: step_Typed)
next
  case False
  with assms have h: "handler c e = resume (pc c) e"
    by (cases e) (simp_all add: handler_def)
  have "\<forall>f \<in> set (fst (resume (pc c) e)). \<forall>c. length (messages (perform f c)) = length (messages c)
            \<and> butlast (messages (perform f c)) = butlast (messages c)"
    using perform_resume_effect(1,2) by blast
  from states_frame [OF this, of c] show ?thesis
    by (simp add: step_def h)
qed

lemma step_trailing_Bot:
  assumes "e \<noteq> Submit" "messages c \<noteq> []" "sender (last (messages c)) = Bot"
  shows "sender (last (messages (step c e))) = Bot"
proof (cases "\<exists>s. e = Typed s")
  case True
  then show ?thesis using assms by (auto simp: step_Typed)
next
  case False
  with assms have h: "handler c e = resume (pc c) e"
    by (cases e) (simp_all add: handler_def)
  let ?P = "\<lambda>c :: config. messages c \<noteq> [] \<and> sender (last (messages c)) = Bot"
  have "\<forall>f \<in> set (fst (resume (pc c) e)). \<forall>c. ?P c \<longrightarrow> ?P (perform f c)"
  proof (intro ballI allI impI)
    fix f and c' :: config
    assume f: "f \<in> set (fst (resume (pc c) e))" and p: "?P c'"
    from p perform_resume_effect(1) [OF f, of c'] have "messages (perform f c') \<noteq> []"
      by (metis length_0_conv)
    with p perform_resume_effect(5) [OF f, of c'] show "?P (perform f c')" by simp
  qed
  then have "?P (last (c # states c (fst (resume (pc c) e))))"
    using assms(2,3) by (intro states_preserve [where P = ?P]) simp_all
  then show ?thesis by (simp add: step_def h)
qed

lemma step_butlast_prefix: "prefix (butlast (messages c)) (butlast (messages (step c e)))"
proof (cases "e = Submit")
  case False
  then show ?thesis using step_frame [of e c] by simp
next
  case True
  show ?thesis
  proof (cases "blank (input c) \<or> loading c")
    case True
    then have "step c Submit = c" by (rule step_Submit_reject)
    then show ?thesis using \<open>e = Submit\<close> by simp
  next
    case False
    have "prefix (butlast (messages c)) (messages c @ [\<lparr>sender = User, msg_text = trim (input c)\<rparr>])"
      by (rule prefix_prefix) (rule prefixeq_butlast)
    with False show ?thesis
      using \<open>e = Submit\<close> by (simp add: step_Submit_accept butlast_append)
  qed
qed

lemma run_butlast_prefix: "prefix (butlast (messages c)) (butlast (messages (run c es)))"
proof (induction es arbitrary: c)
  case Nil
  show ?case by (simp add: run_Nil)
next
  case (Cons e es)
  have "prefix (butlast (messages c)) (butlast (messages (step c e)))"
    by (rule step_butlast_prefix)
  also have "prefix \<dots> (butlast (messages (run (step c e) es)))"
    by (rule Cons.IH)
  finally show ?case by (simp add: run_Cons)
qed

lemma flags_ordered_step:
  assumes "isStreaming c \<longrightarrow> loading c"
  shows "(\<forall>s \<in> set (states c (fst (handler c e))). isStreaming s \<longrightarrow> loading s)
         \<and> (isStreaming (step c e) \<longrightarrow> loading (step c e))"
proof (cases "e = Submit")
  case True
  show ?thesis
  proof (cases "blank (input c) \<or> loading c")
    case True
    with assms \<open>e = Submit\<close> show ?thesis
      by (simp add: step_Submit_reject handler_Submit_reject)
  next
    case False
    with assms \<open>e = Submit\<close> show ?thesis
      by (simp add: step_Submit_accept accept_effects)
  qed
next
  case False
  then have h: "handler c e = (case e of Typed s \<Rightarrow> ([SetInput s], pc c) | _ \<Rightarrow> resume (pc c) e)"
    by (cases e) (simp_all add: handler_def)
  show ?thesis
  proof (cases "\<exists>s. e = Typed s")
    case True
    with assms show ?thesis by (auto simp: step_Typed handler_def)
  next
    case False
    with h have h': "handler c e = resume (pc c) e" by (cases e) simp_all
    define l where "l = last (c # states c (fst (resume (pc c) e)))"
    have "\<forall>s \<in> set (c # states c (fst (resume p e))). isStreaming s \<longrightarrow> loading s" for p
      using assms
      by (induction p e rule: resume.induct) (auto simp: catch_finally_def)
    then have all: "\<forall>s \<in> set (c # states c (fst (resume (pc c) e))). isStreaming s \<longrightarrow> loading s"
      by blast
    have "l \<in> set (c # states c (fst (resume (pc c) e)))"
      unfolding l_def by (rule last_in_set) simp
    with all have l: "isStreaming l \<longrightarrow> loading l" by blast
    have st: "step c e = l\<lparr>pc := snd (resume (pc c) e)\<rparr>"
      by (simp add: step_def h' l_def)
    from all l show ?thesis
      by (simp add: st h')
  qed
qed

lemma flags_ordered_visited:
  assumes "isStreaming c \<longrightarrow> loading c"
  shows "\<forall>s \<in> set (visited c es). isStreaming s \<longrightarrow> loading s"
  using assms
proof (induction es arbitrary: c)
  case Nil
  then show ?case by simp
next
  case (Cons e es)
  from flags_ordered_step [OF Cons.prems, of e] Cons.IH [of "step c e"] Cons.prems
  show ?case by auto
qed

lemma loading_until_last_effect:
  assumes "loading c"
  shows "\<forall>s \<in> set (butlast (states c (fst (handler c e)))). loading s"
proof (cases "e = Submit")
  case True
  with assms show ?thesis by (simp add: handler_Submit_reject)
next
  case False
  show ?thesis
  proof (cases "\<exists>s. e = Typed s")
    case True
    then show ?thesis by (auto simp: handler_def)
  next
    case nt: False
    with False have h': "handler c e = resume (pc c) e" by (cases e) (simp_all add: handler_def)
    have "\<forall>s \<in> set (butlast (states c (fst (resume p e)))). loading s" for p
      using assms
      by (induction p e rule: resume.induct) (auto simp: catch_finally_def)
    then show ?thesis
      unfolding h' by blast
  qed
qed

section \<open>Evaluation of concrete runs\<close>

lemmas unfold_run =
  run_def step_def handler_def sendMessage_def init_def trim_def js_def isWhiteSpace_def
  blank_def ok_def opt_includes_def answer_or_default_def trailing_def catch_finally_def Let_def

section \<open>The streaming path\<close>

text \<open>
  C1.  An accepted submission is answered by a response with status 200, a content type
  that contains \<^verbatim>\<open>text/plain\<close> and a body, delivered as the chunks \<open>chunks\<close>.  After
  each chunk (after the first \<open>k\<close> chunks, for every \<open>k\<close>) the trailing message is a bot
  message whose text is the concatenation of the chunks consumed so far, and when the
  stream reports its end it is the concatenation of all chunks in delivery order.
\<close>

theorem streaming_accumulates:
  assumes "\<not> blank (input c)" "\<not> loading c"
    and "status res = 200" "opt_includes (contentType res) (js ''text/plain'')" "hasBody res"
  shows "(\<forall>k \<le> length chunks.
            trailing (run c (Submit # FetchResolved res # map ReadChunk (take k chunks)))
              = \<lparr>sender = Bot, msg_text = concat (take k chunks)\<rparr>)
         \<and> trailing (run c (Submit # FetchResolved res # map ReadChunk chunks @ [ReadDone]))
              = \<lparr>sender = Bot, msg_text = concat chunks\<rparr>"
proof -
  let ?c1 = "step c Submit"
  let ?c2 = "step ?c1 (FetchResolved res)"
  have ok: "ok res" using assms(3) by (simp add: ok_def)
  have c1: "pc ?c1 = AwaitFetch" "messages ?c1 = messages c @ [\<lparr>sender = User, msg_text = trim (input c)\<rparr>, \<lparr>sender = Bot, msg_text = []\<rparr>]"
    using assms(1,2) by (simp_all add: step_Submit_accept)
  have c2: "?c2 = ?c1\<lparr>pc := AwaitRead []\<rparr>"
    using c1(1) ok assms(4,5) by (rule step_FetchResolved_stream)
  have p2: "pc ?c2 = AwaitRead []" and m2: "messages ?c2 = messages ?c1"
    by (simp_all add: c2)
  have ne: "messages ?c2 \<noteq> []" by (simp add: m2 c1(2))
  have tr: "trailing (run ?c2 (map ReadChunk cs)) = \<lparr>sender = Bot, msg_text = concat cs\<rparr>" for cs
    using run_chunks [OF p2 ne, of cs] ne
    by (simp add: trailing_def m2 c1(2) last_list_update)
  have pcs: "pc (run ?c2 (map ReadChunk cs)) = AwaitRead (concat cs)" for cs
    using run_chunks [OF p2 ne, of cs] by simp
  have "trailing (run ?c2 (map ReadChunk chunks @ [ReadDone])) = \<lparr>sender = Bot, msg_text = concat chunks\<rparr>"
    using tr [of chunks] pcs [of chunks]
    by (simp add: run_append run_Cons run_Nil step_ReadDone trailing_def)
  then show ?thesis
    using tr by (simp add: run_Cons)
qed

theorem streaming_accumulates_witness:
  "msg_text (trailing (run (init\<lparr>input := js ''hi''\<rparr>)
      [Submit,
       FetchResolved \<lparr>status = 200, contentType = Some (js ''text/plain; charset=utf-8''), hasBody = True\<rparr>,
       ReadChunk (js ''Hel'')])) = js ''Hel''
   \<and> msg_text (trailing (run (init\<lparr>input := js ''hi''\<rparr>)
      [Submit,
       FetchResolved \<lparr>status = 200, contentType = Some (js ''text/plain; charset=utf-8''), hasBody = True\<rparr>,
       ReadChunk (js ''Hel''), ReadChunk (js ''lo''), ReadDone])) = js ''Hello''"
proof -
  let ?c = "init\<lparr>input := js ''hi''\<rparr>"
  let ?r = "\<lparr>status = 200, contentType = Some (js ''text/plain; charset=utf-8''), hasBody = True\<rparr>"
  have h1: "\<not> blank (input ?c)" by (simp add: blank_def js_def isWhiteSpace_def)
  have h2: "\<not> loading ?c" by (simp add: init_def)
  have h3: "status ?r = 200" by simp
  have h4: "opt_includes (contentType ?r) (js ''text/plain'')" by (simp add: opt_includes_def js_def)
  have h5: "hasBody ?r" by simp
  note t = streaming_accumulates [OF h1 h2 h3 h4 h5, of "[js ''Hel'', js ''lo'']"]
  from t have "\<forall>k \<le> 2. trailing (run ?c (Submit # FetchResolved ?r # map ReadChunk (take k [js ''Hel'', js ''lo'']))) =
     \<lparr>sender = Bot, msg_text = concat (take k [js ''Hel'', js ''lo''])\<rparr>"
    by simp
  then have "trailing (run ?c (Submit # FetchResolved ?r # map ReadChunk (take 1 [js ''Hel'', js ''lo'']))) =
     \<lparr>sender = Bot, msg_text = concat (take 1 [js ''Hel'', js ''lo''])\<rparr>"
    by (rule allE [of _ 1]) simp
  then have a: "msg_text (trailing (run ?c [Submit, FetchResolved ?r, ReadChunk (js ''Hel'')])) = js ''Hel''"
    by simp
  from t have b: "msg_text (trailing (run ?c [Submit, FetchResolved ?r, ReadChunk (js ''Hel''), ReadChunk (js ''lo''), ReadDone])) = js ''Hello''"
    by (simp add: js_def)
  from a b show ?thesis by simp
qed

section \<open>The JSON path\<close>

text \<open>
  C2, as amended.  An accepted submission is answered by a response with status 200
  whose content type contains \<^verbatim>\<open>application/json\<close> and does not contain
  \<^verbatim>\<open>text/plain\<close> (the streaming branch is tested first), and whose body parses to a
  JSON object.  The trailing message becomes a bot message whose text
  is the \<^verbatim>\<open>answer\<close> field when that field is a non-empty string, and the fallback
  string when the field is absent or is the empty string.
\<close>

theorem json_answer_or_fallback:
  assumes "\<not> blank (input c)" "\<not> loading c"
    and "status res = 200"
    and "opt_includes (contentType res) (js ''application/json'')"
    and "\<not> opt_includes (contentType res) (js ''text/plain'')"
  shows "trailing (run c [Submit, FetchResolved res, JsonResolved a])
           = \<lparr>sender = Bot,
              msg_text = (if a = None \<or> a = Some [] then js ''No response received.'' else the a)\<rparr>"
proof -
  let ?c1 = "step c Submit"
  let ?c2 = "step ?c1 (FetchResolved res)"
  have ok: "ok res" using assms(3) by (simp add: ok_def)
  have c1: "pc ?c1 = AwaitFetch" "messages ?c1 = messages c @ [\<lparr>sender = User, msg_text = trim (input c)\<rparr>, \<lparr>sender = Bot, msg_text = []\<rparr>]"
    using assms(1,2) by (simp_all add: step_Submit_accept)
  have c2: "?c2 = ?c1\<lparr>pc := AwaitJson\<rparr>"
    using c1(1) ok assms(5,4) by (rule step_FetchResolved_json)
  have p2: "pc ?c2 = AwaitJson" and m2: "messages ?c2 = messages ?c1"
    by (simp_all add: c2)
  have d: "answer_or_default a = (if a = None \<or> a = Some [] then js ''No response received.'' else the a)"
    by (cases a) (simp_all add: answer_or_default_def)
  have "trailing (step ?c2 (JsonResolved a)) = \<lparr>sender = Bot, msg_text = answer_or_default a\<rparr>"
    by (simp add: step_JsonResolved [OF p2] m2 c1(2) trailing_def last_list_update)
  then show ?thesis
    by (simp add: run_Cons run_Nil d)
qed

theorem json_answer_or_fallback_witness:
  "msg_text (trailing (run (init\<lparr>input := js ''hi''\<rparr>)
      [Submit,
       FetchResolved \<lparr>status = 200, contentType = Some (js ''application/json''), hasBody = True\<rparr>,
       JsonResolved (Some (js ''X''))])) = js ''X''
   \<and> msg_text (trailing (run (init\<lparr>input := js ''hi''\<rparr>)
      [Submit,
       FetchResolved \<lparr>status = 200, contentType = Some (js ''application/json''), hasBody = True\<rparr>,
       JsonResolved None])) = js ''No response received.''"
proof -
  let ?c = "init\<lparr>input := js ''hi''\<rparr>"
  let ?r = "\<lparr>status = 200, contentType = Some (js ''application/json''), hasBody = True\<rparr>"
  have h1: "\<not> blank (input ?c)" by (simp add: blank_def js_def isWhiteSpace_def)
  have h2: "\<not> loading ?c" by (simp add: init_def)
  have h3: "status ?r = 200" by simp
  have h4: "opt_includes (contentType ?r) (js ''application/json'')" by (simp add: opt_includes_def js_def)
  have h5: "\<not> opt_includes (contentType ?r) (js ''text/plain'')" by (simp add: opt_includes_def js_def)
  note t = json_answer_or_fallback [OF h1 h2 h3 h4 h5]
  from t [of "Some (js ''X'')"] t [of None] show ?thesis
    by (simp add: js_def)
qed

text \<open>
  C2, as stated, fails: for the body \<^verbatim>\<open>{"answer": ""}\<close> the field is provided, and
  the trailing message text is the fallback string, not the (empty) answer.
\<close>

theorem json_empty_answer_counterexample:
  "msg_text (trailing (run (init\<lparr>input := js ''hi''\<rparr>)
      [Submit,
       FetchResolved \<lparr>status = 200, contentType = Some (js ''application/json''), hasBody = True\<rparr>,
       JsonResolved (Some [])])) = js ''No response received.''
   \<and> js ''No response received.'' \<noteq> []"
  by (simp add: run_def step_def handler_def sendMessage_def init_def trim_def js_def isWhiteSpace_def
      ok_def opt_includes_def answer_or_default_def trailing_def Let_def)

section \<open>Failures\<close>

text \<open>
  C3.  An accepted submission whose exchange fails ends with the trailing message
  being a bot message with the one fixed apology text, and with \<open>isStreaming\<close> (and
  \<open>loading\<close>) cleared.  The failures are: \<^verbatim>\<open>fetch\<close> rejects (network failure); the
  status is not a success status; the content type contains neither \<^verbatim>\<open>text/plain\<close>
  nor \<^verbatim>\<open>application/json\<close> (or there is no such header); and the other ways into
  the \<^verbatim>\<open>catch\<close> block: a streaming response without a body, a read of the stream
  that rejects after any number of chunks, and a JSON body that does not parse.
\<close>

theorem failure_gives_apology:
  assumes "\<not> blank (input c)" "\<not> loading c"
    and "es = [FetchRejected]
       \<or> es = [FetchResolved res] \<and> \<not> ok res
       \<or> es = [FetchResolved res] \<and> ok res
            \<and> \<not> opt_includes (contentType res) (js ''text/plain'')
            \<and> \<not> opt_includes (contentType res) (js ''application/json'')
       \<or> es = [FetchResolved res] \<and> ok res
            \<and> opt_includes (contentType res) (js ''text/plain'') \<and> \<not> hasBody res
       \<or> es = FetchResolved res # map ReadChunk chunks @ [ReadRejected] \<and> ok res
            \<and> opt_includes (contentType res) (js ''text/plain'') \<and> hasBody res
       \<or> es = [FetchResolved res, JsonRejected] \<and> ok res
            \<and> \<not> opt_includes (contentType res) (js ''text/plain'')
            \<and> opt_includes (contentType res) (js ''application/json'')"
  shows "trailing (run c (Submit # es))
           = \<lparr>sender = Bot, msg_text = js ''Sorry, I encountered an error. Please try again.''\<rparr>
         \<and> \<not> isStreaming (run c (Submit # es))
         \<and> \<not> loading (run c (Submit # es))"
proof -
  let ?c1 = "step c Submit"
  let ?Q = "\<lambda>s. trailing s = \<lparr>sender = Bot, msg_text = js ''Sorry, I encountered an error. Please try again.''\<rparr>
         \<and> \<not> isStreaming s \<and> \<not> loading s"
  have p1: "pc ?c1 = AwaitFetch" and m1: "messages ?c1 \<noteq> []"
    using assms(1,2) by (simp_all add: step_Submit_accept)
  have direct: "?Q (step ?c1 e)" if "handler ?c1 e = (catch_finally, Idle)" for e
    using step_catch [OF that m1] by simp
  consider (net) "es = [FetchRejected]"
    | (status) "es = [FetchResolved res]" "\<not> ok res"
    | (ctype) "es = [FetchResolved res]" "ok res"
        "\<not> opt_includes (contentType res) (js ''text/plain'')"
        "\<not> opt_includes (contentType res) (js ''application/json'')"
    | (nobody) "es = [FetchResolved res]" "ok res"
        "opt_includes (contentType res) (js ''text/plain'')" "\<not> hasBody res"
    | (read) "es = FetchResolved res # map ReadChunk chunks @ [ReadRejected]" "ok res"
        "opt_includes (contentType res) (js ''text/plain'')" "hasBody res"
    | (json) "es = [FetchResolved res, JsonRejected]" "ok res"
        "\<not> opt_includes (contentType res) (js ''text/plain'')"
        "opt_includes (contentType res) (js ''application/json'')"
    using assms(3) by blast
  then have "?Q (run c (Submit # es))"
  proof cases
    case net
    have "handler ?c1 FetchRejected = (catch_finally, Idle)"
      by (simp add: handler_def p1)
    from direct [OF this] show ?thesis
      by (simp add: net run_Cons run_Nil)
  next
    case status
    have "handler ?c1 (FetchResolved res) = (catch_finally, Idle)"
      using status(2) by (simp add: handler_def p1)
    from direct [OF this] show ?thesis
      by (simp add: status(1) run_Cons run_Nil)
  next
    case ctype
    have "handler ?c1 (FetchResolved res) = (catch_finally, Idle)"
      using ctype(2-4) by (simp add: handler_def p1)
    from direct [OF this] show ?thesis
      by (simp add: ctype(1) run_Cons run_Nil)
  next
    case nobody
    have "handler ?c1 (FetchResolved res) = (catch_finally, Idle)"
      using nobody(2-4) by (simp add: handler_def p1)
    from direct [OF this] show ?thesis
      by (simp add: nobody(1) run_Cons run_Nil)
  next
    case read
    let ?c2 = "step ?c1 (FetchResolved res)"
    let ?c3 = "run ?c2 (map ReadChunk chunks)"
    have c2: "?c2 = ?c1\<lparr>pc := AwaitRead []\<rparr>"
      using p1 read(2-4) by (rule step_FetchResolved_stream)
    have p2: "pc ?c2 = AwaitRead []" and m2: "messages ?c2 \<noteq> []"
      using m1 by (simp_all add: c2)
    have p3: "pc ?c3 = AwaitRead (concat chunks)" and m3: "messages ?c3 \<noteq> []"
      using run_chunks [OF p2 m2, of chunks] m2 by simp_all
    have "handler ?c3 ReadRejected = (catch_finally, Idle)"
      by (simp add: handler_def p3)
    from step_catch [OF this m3] show ?thesis
      by (simp add: read(1) run_Cons run_Nil run_append)
  next
    case json
    let ?c2 = "step ?c1 (FetchResolved res)"
    have c2: "?c2 = ?c1\<lparr>pc := AwaitJson\<rparr>"
      using p1 json(2-4) by (rule step_FetchResolved_json)
    have p2: "pc ?c2 = AwaitJson" and m2: "messages ?c2 \<noteq> []"
      using m1 by (simp_all add: c2)
    have "handler ?c2 JsonRejected = (catch_finally, Idle)"
      by (simp add: handler_def p2)
    from step_catch [OF this m2] show ?thesis
      by (simp add: json(1) run_Cons run_Nil)
  qed
  then show ?thesis by simp
qed

theorem failure_gives_apology_witness:
  "msg_text (trailing (run (init\<lparr>input := js ''hi''\<rparr>) [Submit, FetchRejected]))
     = js ''Sorry, I encountered an error. Please try again.''
   \<and> msg_text (trailing (run (init\<lparr>input := js ''hi''\<rparr>)
        [Submit, FetchResolved \<lparr>status = 500, contentType = Some (js ''text/plain''), hasBody = True\<rparr>]))
     = js ''Sorry, I encountered an error. Please try again.''
   \<and> msg_text (trailing (run (init\<lparr>input := js ''hi''\<rparr>)
        [Submit, FetchResolved \<lparr>status = 200, contentType = Some (js ''text/html''), hasBody = True\<rparr>]))
     = js ''Sorry, I encountered an error. Please try again.''
   \<and> \<not> isStreaming (run (init\<lparr>input := js ''hi''\<rparr>)
        [Submit, FetchResolved \<lparr>status = 200, contentType = None, hasBody = True\<rparr>])"
proof -
  let ?c = "init\<lparr>input := js ''hi''\<rparr>"
  let ?r1 = "\<lparr>status = 500, contentType = Some (js ''text/plain''), hasBody = True\<rparr>"
  let ?r2 = "\<lparr>status = 200, contentType = Some (js ''text/html''), hasBody = True\<rparr>"
  let ?r3 = "\<lparr>status = 200, contentType = None, hasBody = True\<rparr>"
  have h1: "\<not> blank (input ?c)" by (simp add: blank_def js_def isWhiteSpace_def)
  have h2: "\<not> loading ?c" by (simp add: init_def)
  note t = failure_gives_apology [OF h1 h2]
  have a: "msg_text (trailing (run ?c [Submit, FetchRejected])) = js ''Sorry, I encountered an error. Please try again.''"
    using t [of "[FetchRejected]"] by simp
  have "\<not> ok ?r1" by (simp add: ok_def)
  then have b: "msg_text (trailing (run ?c [Submit, FetchResolved ?r1])) = js ''Sorry, I encountered an error. Please try again.''"
    using t [of "[FetchResolved ?r1]" ?r1] by simp
  have "ok ?r2 \<and> \<not> opt_includes (contentType ?r2) (js ''text/plain'')
      \<and> \<not> opt_includes (contentType ?r2) (js ''application/json'')"
    by (simp add: ok_def opt_includes_def js_def)
  then have c: "msg_text (trailing (run ?c [Submit, FetchResolved ?r2])) = js ''Sorry, I encountered an error. Please try again.''"
    using t [of "[FetchResolved ?r2]" ?r2] by simp
  have "ok ?r3 \<and> \<not> opt_includes (contentType ?r3) (js ''text/plain'')
      \<and> \<not> opt_includes (contentType ?r3) (js ''application/json'')"
    by (simp add: ok_def opt_includes_def)
  then have d: "\<not> isStreaming (run ?c [Submit, FetchResolved ?r3])"
    using t [of "[FetchResolved ?r3]" ?r3] by simp
  from a b c d show ?thesis by simp
qed

section \<open>Rejected submissions\<close>

text \<open>
  C4.  In every configuration, calling \<^verbatim>\<open>sendMessage\<close> when the input is empty or
  consists of white space only, or while \<open>loading\<close> is true, performs no effect at all
  (so no request is issued) and leaves the whole configuration, hence the message
  list, the input buffer, \<open>loading\<close> and \<open>isStreaming\<close>, unchanged.
\<close>

theorem submit_blank_or_loading_noop:
  assumes "blank (input c) \<or> loading c"
  shows "fst (handler c Submit) = [] \<and> step c Submit = c"
proof -
  from assms have "trim (input c) = [] \<or> loading c"
    by (simp add: trim_Nil_iff)
  then have h: "handler c Submit = ([], pc c)"
    by (simp add: handler_def sendMessage_def)
  show ?thesis
    by (simp add: step_def h)
qed

theorem submit_blank_or_loading_noop_witness:
  "step (init\<lparr>input := js ''  ''\<rparr>) Submit = init\<lparr>input := js ''  ''\<rparr>
   \<and> step (init\<lparr>input := js ''hi'', loading := True\<rparr>) Submit
       = init\<lparr>input := js ''hi'', loading := True\<rparr>
   \<and> step init Submit = init"
  using submit_blank_or_loading_noop [of "init\<lparr>input := js ''  ''\<rparr>"]
    submit_blank_or_loading_noop [of "init\<lparr>input := js ''hi'', loading := True\<rparr>"]
    submit_blank_or_loading_noop [of init]
  by (simp add: init_def js_def blank_def isWhiteSpace_def)

section \<open>Accepted submissions\<close>

text \<open>
  C5.  For an accepted submission (the input is not blank and \<open>loading\<close> is false), the
  message list and the list of requests after each of the six effects, in order: the
  user message is appended by the first effect, the placeholder bot message with empty
  text by the fifth, and the one request is issued by the sixth and last.  So when the
  request is issued the message list has grown by exactly two elements and ends in an
  empty bot message, and exactly one request has been added.
\<close>

theorem accepted_submission_order:
  assumes "\<not> blank (input c)" "\<not> loading c"
  shows "map (\<lambda>s. (messages s, sent s)) (states c (fst (handler c Submit))) =
           [(messages c @ [\<lparr>sender = User, msg_text = trim (input c)\<rparr>], sent c),
            (messages c @ [\<lparr>sender = User, msg_text = trim (input c)\<rparr>], sent c),
            (messages c @ [\<lparr>sender = User, msg_text = trim (input c)\<rparr>], sent c),
            (messages c @ [\<lparr>sender = User, msg_text = trim (input c)\<rparr>], sent c),
            (messages c @ [\<lparr>sender = User, msg_text = trim (input c)\<rparr>,
                           \<lparr>sender = Bot, msg_text = []\<rparr>], sent c),
            (messages c @ [\<lparr>sender = User, msg_text = trim (input c)\<rparr>,
                           \<lparr>sender = Bot, msg_text = []\<rparr>], sent c @ [trim (input c)])]
         \<and> length (messages (step c Submit)) = length (messages c) + 2
         \<and> trailing (step c Submit) = \<lparr>sender = Bot, msg_text = []\<rparr>
         \<and> length (sent (step c Submit)) = length (sent c) + 1"
  using assms by (simp add: accept_effects step_Submit_accept trailing_def)

theorem accepted_submission_order_witness:
  "map (\<lambda>s. (messages s, sent s)) (states (init\<lparr>input := js ''hi''\<rparr>) (fst (handler (init\<lparr>input := js ''hi''\<rparr>) Submit))) =
           [([\<lparr>sender = User, msg_text = js ''hi''\<rparr>], []),
            ([\<lparr>sender = User, msg_text = js ''hi''\<rparr>], []),
            ([\<lparr>sender = User, msg_text = js ''hi''\<rparr>], []),
            ([\<lparr>sender = User, msg_text = js ''hi''\<rparr>], []),
            ([\<lparr>sender = User, msg_text = js ''hi''\<rparr>, \<lparr>sender = Bot, msg_text = []\<rparr>], []),
            ([\<lparr>sender = User, msg_text = js ''hi''\<rparr>, \<lparr>sender = Bot, msg_text = []\<rparr>], [js ''hi''])]
   \<and> length (messages (step (init\<lparr>input := js ''hi''\<rparr>) Submit)) = 2"
proof -
  let ?c = "init\<lparr>input := js ''hi''\<rparr>"
  have h1: "\<not> blank (input ?c)" by (simp add: blank_def js_def isWhiteSpace_def)
  have h2: "\<not> loading ?c" by (simp add: init_def)
  have t: "trim (input ?c) = js ''hi''" by (simp add: trim_def js_def isWhiteSpace_def)
  have m: "messages ?c = []" "sent ?c = []" by (simp_all add: init_def)
  from accepted_submission_order [OF h1 h2] show ?thesis
    unfolding t m by simp
qed

section \<open>The loading flag\<close>

text \<open>
  While the component is mounted: in every configuration reached from the initial
  one, \<open>loading\<close> is true exactly when an invocation of \<^verbatim>\<open>sendMessage\<close> is suspended,
  and stays true through every effect of a handler but possibly the last one; a call
  of \<^verbatim>\<open>sendMessage\<close> changes the configuration exactly when the input is not blank
  and \<open>loading\<close> is false.
\<close>

lemma loading_iff_suspended:
  "(loading (run init es) \<longleftrightarrow> pc (run init es) \<noteq> Idle)
   \<and> (pc (run init es) \<noteq> Idle \<longrightarrow>
        (\<forall>s \<in> set (butlast (states (run init es) (fst (handler (run init es) e)))). loading s))
   \<and> (step c Submit \<noteq> c \<longleftrightarrow> \<not> blank (input c) \<and> \<not> loading c)"
proof -
  let ?c = "run init es"
  have co: "coherent ?c" using coherent_init by (rule coherent_run)
  then have 1: "loading ?c \<longleftrightarrow> pc ?c \<noteq> Idle" by (simp add: coherent_def)
  have 2: "pc ?c \<noteq> Idle \<longrightarrow> (\<forall>s \<in> set (butlast (states ?c (fst (handler ?c e)))). loading s)"
    using 1 loading_until_last_effect [of ?c e] by blast
  have 3: "step c Submit \<noteq> c \<longleftrightarrow> \<not> blank (input c) \<and> \<not> loading c"
  proof (cases "blank (input c) \<or> loading c")
    case True
    then show ?thesis using step_Submit_reject [of c] by auto
  next
    case False
    then have "loading (step c Submit)" by (simp add: step_Submit_accept)
    with False show ?thesis by auto
  qed
  from 1 2 3 show ?thesis by blast
qed

text \<open>
  The paths of an accepted submission whose JSON body, if any, is an object:
  \<open>loading\<close> is true after acceptance, after \<^verbatim>\<open>fetch\<close> resolves, and after every
  chunk; it is false when the stream reports its end, when the JSON completion has
  run, and after each failure.
\<close>

lemma loading_through_exchange:
  assumes "\<not> blank (input c)" "\<not> loading c"
  shows "loading (run c [Submit])"
    and "\<not> loading (run c [Submit, FetchRejected])"
    and "\<not> ok res \<Longrightarrow> \<not> loading (run c [Submit, FetchResolved res])"
    and "ok res \<Longrightarrow> \<not> opt_includes (contentType res) (js ''text/plain'')
         \<Longrightarrow> \<not> opt_includes (contentType res) (js ''application/json'')
         \<Longrightarrow> \<not> loading (run c [Submit, FetchResolved res])"
    and "ok res \<Longrightarrow> opt_includes (contentType res) (js ''text/plain'') \<Longrightarrow> \<not> hasBody res
         \<Longrightarrow> \<not> loading (run c [Submit, FetchResolved res])"
    and "ok res \<Longrightarrow> opt_includes (contentType res) (js ''text/plain'') \<Longrightarrow> hasBody res
         \<Longrightarrow> loading (run c (Submit # FetchResolved res # map ReadChunk chunks))
             \<and> \<not> loading (run c (Submit # FetchResolved res # map ReadChunk chunks @ [ReadDone]))
             \<and> \<not> loading (run c (Submit # FetchResolved res # map ReadChunk chunks @ [ReadRejected]))"
    and "ok res \<Longrightarrow> \<not> opt_includes (contentType res) (js ''text/plain'')
         \<Longrightarrow> opt_includes (contentType res) (js ''application/json'')
         \<Longrightarrow> loading (run c [Submit, FetchResolved res])
             \<and> \<not> loading (run c [Submit, FetchResolved res, JsonResolved a])
             \<and> \<not> loading (run c [Submit, FetchResolved res, JsonRejected])"
proof -
  let ?c1 = "step c Submit"
  have p1: "pc ?c1 = AwaitFetch" and l1: "loading ?c1" and m1: "messages ?c1 \<noteq> []"
    using assms by (simp_all add: step_Submit_accept)
  show "loading (run c [Submit])"
    using l1 by (simp add: run_Cons run_Nil)
  have direct: "\<not> loading (step ?c1 e)" if "handler ?c1 e = (catch_finally, Idle)" for e
    using step_catch [OF that m1] by simp
  show "\<not> loading (run c [Submit, FetchRejected])"
    using direct [of FetchRejected] by (simp add: run_Cons run_Nil handler_def p1)
  show "\<not> loading (run c [Submit, FetchResolved res])" if "\<not> ok res"
    using direct [of "FetchResolved res"] that by (simp add: run_Cons run_Nil handler_def p1)
  show "\<not> loading (run c [Submit, FetchResolved res])"
    if "ok res" "\<not> opt_includes (contentType res) (js ''text/plain'')"
      "\<not> opt_includes (contentType res) (js ''application/json'')"
    using direct [of "FetchResolved res"] that by (simp add: run_Cons run_Nil handler_def p1)
  show "\<not> loading (run c [Submit, FetchResolved res])"
    if "ok res" "opt_includes (contentType res) (js ''text/plain'')" "\<not> hasBody res"
    using direct [of "FetchResolved res"] that by (simp add: run_Cons run_Nil handler_def p1)
  show "loading (run c (Submit # FetchResolved res # map ReadChunk chunks))
       \<and> \<not> loading (run c (Submit # FetchResolved res # map ReadChunk chunks @ [ReadDone]))
       \<and> \<not> loading (run c (Submit # FetchResolved res # map ReadChunk chunks @ [ReadRejected]))"
    if "ok res" "opt_includes (contentType res) (js ''text/plain'')" "hasBody res"
  proof -
    let ?c2 = "step ?c1 (FetchResolved res)"
    let ?c3 = "run ?c2 (map ReadChunk chunks)"
    have c2: "?c2 = ?c1\<lparr>pc := AwaitRead []\<rparr>"
      using p1 that by (rule step_FetchResolved_stream)
    have p2: "pc ?c2 = AwaitRead []" and m2: "messages ?c2 \<noteq> []" and l2: "loading ?c2"
      using m1 l1 by (simp_all add: c2)
    have p3: "pc ?c3 = AwaitRead (concat chunks)" and m3: "messages ?c3 \<noteq> []" and l3: "loading ?c3"
      using run_chunks [OF p2 m2, of chunks] m2 l2 by simp_all
    have "handler ?c3 ReadRejected = (catch_finally, Idle)"
      by (simp add: handler_def p3)
    from step_catch [OF this m3] have "\<not> loading (step ?c3 ReadRejected)" by simp
    moreover have "\<not> loading (step ?c3 ReadDone)"
      by (simp add: step_ReadDone [OF p3])
    ultimately show ?thesis
      using l3 by (simp add: run_Cons run_Nil run_append)
  qed
  show "loading (run c [Submit, FetchResolved res])
       \<and> \<not> loading (run c [Submit, FetchResolved res, JsonResolved a])
       \<and> \<not> loading (run c [Submit, FetchResolved res, JsonRejected])"
    if "ok res" "\<not> opt_includes (contentType res) (js ''text/plain'')"
      "opt_includes (contentType res) (js ''application/json'')"
  proof -
    let ?c2 = "step ?c1 (FetchResolved res)"
    have c2: "?c2 = ?c1\<lparr>pc := AwaitJson\<rparr>"
      using p1 that by (rule step_FetchResolved_json)
    have p2: "pc ?c2 = AwaitJson" and m2: "messages ?c2 \<noteq> []" and l2: "loading ?c2"
      using m1 l1 by (simp_all add: c2)
    have "handler ?c2 JsonRejected = (catch_finally, Idle)"
      by (simp add: handler_def p2)
    from step_catch [OF this m2] have "\<not> loading (step ?c2 JsonRejected)" by simp
    moreover have "\<not> loading (step ?c2 (JsonResolved a))"
      by (simp add: step_JsonResolved [OF p2])
    ultimately show ?thesis
      using l2 by (simp add: run_Cons run_Nil)
  qed
qed

text \<open>
  Whenever \<open>loading\<close> is false, so after each of the completions above, a non-blank
  query that is typed and submitted is accepted: \<open>loading\<close> is set and the request is
  sent.
\<close>

lemma accepted_when_not_loading:
  assumes "\<not> loading c" "\<not> blank q"
  shows "loading (run c [Typed q, Submit]) \<and> sent (run c [Typed q, Submit]) = sent c @ [trim q]"
proof -
  let ?d = "step c (Typed q)"
  have "\<not> blank (input ?d)" "\<not> loading ?d" using assms by (simp_all add: step_Typed)
  then have "step ?d Submit = ?d\<lparr>messages := messages ?d @ [\<lparr>sender = User, msg_text = trim (input ?d)\<rparr>, \<lparr>sender = Bot, msg_text = []\<rparr>],
     input := [], loading := True, isStreaming := True, sent := sent ?d @ [trim (input ?d)], pc := AwaitFetch\<rparr>"
    by (rule step_Submit_accept)
  then show ?thesis
    by (simp add: run_Cons run_Nil step_Typed)
qed

text \<open>The deliveries that are events of the mounted component are its runs.\<close>

lemma deliver_all_Event: "deliver_all (Mounted c) (map Event es) = Mounted (run c es)"
  by (induction es arbitrary: c) (simp_all add: deliver_all_def run_def)


section \<open>The in-flight message\<close>

text \<open>
  C7.  In every configuration \<open>c\<close> reached from the initial one by a sequence of events
  in which \<open>isStreaming\<close> is true: the message sequence is not empty and its last
  element is a bot message; and whatever event comes next, the length of the sequence
  and every element but the last are unchanged, and the last element is still a bot
  message.  The configurations meant are those between two runs of a handler, which
  are the states the component is rendered in: the setter calls of one run are
  applied together.  Inside the accepting run, between \<^verbatim>\<open>setIsStreaming(true)\<close> and
  the append of the placeholder, the pending state has \<open>isStreaming\<close> true and the user
  message last (lemma \<open>pending_state_inside_accept\<close>).
\<close>

theorem in_flight_message_is_last:
  assumes "c = run init es" and "isStreaming c"
  shows "messages c \<noteq> [] \<and> sender (trailing c) = Bot
         \<and> length (messages (step c e)) = length (messages c)
         \<and> butlast (messages (step c e)) = butlast (messages c)
         \<and> sender (trailing (step c e)) = Bot"
proof -
  have "coherent c" unfolding assms(1) using coherent_init by (rule coherent_run)
  with assms(2) have l: "loading c" and m: "messages c \<noteq> []" and b: "sender (last (messages c)) = Bot"
    by (simp_all add: coherent_def)
  show ?thesis
  proof (cases "e = Submit")
    case True
    have "step c Submit = c" using l by (simp add: step_Submit_reject)
    with True m b show ?thesis by (simp add: trailing_def)
  next
    case False
    from step_frame [OF False, of c] step_trailing_Bot [OF False m b] m b
    show ?thesis by (simp add: trailing_def)
  qed
qed

theorem in_flight_message_is_last_witness:
  "isStreaming (run init [Typed (js ''hi''), Submit,
      FetchResolved \<lparr>status = 200, contentType = Some (js ''text/plain''), hasBody = True\<rparr>])
   \<and> sender (trailing (run init [Typed (js ''hi''), Submit,
      FetchResolved \<lparr>status = 200, contentType = Some (js ''text/plain''), hasBody = True\<rparr>])) = Bot
   \<and> butlast (messages (run init [Typed (js ''hi''), Submit,
      FetchResolved \<lparr>status = 200, contentType = Some (js ''text/plain''), hasBody = True\<rparr>,
      ReadChunk (js ''Hel'')])) = [\<lparr>sender = User, msg_text = js ''hi''\<rparr>]
   \<and> sender (trailing (run init [Typed (js ''hi''), Submit,
      FetchResolved \<lparr>status = 200, contentType = Some (js ''text/plain''), hasBody = True\<rparr>,
      ReadChunk (js ''Hel'')])) = Bot"
proof -
  let ?es = "[Typed (js ''hi''), Submit,
      FetchResolved \<lparr>status = 200, contentType = Some (js ''text/plain''), hasBody = True\<rparr>]"
  have s: "isStreaming (run init ?es)" by (simp add: unfold_run)
  have b: "butlast (messages (run init ?es)) = [\<lparr>sender = User, msg_text = js ''hi''\<rparr>]"
    by (simp add: unfold_run)
  have r: "run init (?es @ [ReadChunk (js ''Hel'')]) = step (run init ?es) (ReadChunk (js ''Hel''))"
    by (simp add: run_append run_Cons run_Nil)
  from in_flight_message_is_last [OF refl s, of "ReadChunk (js ''Hel'')"] s b
  show ?thesis
    using r by simp
qed

lemma pending_state_inside_accept:
  "isStreaming (visited init [Typed (js ''hi''), Submit] ! 6)
   \<and> sender (last (messages (visited init [Typed (js ''hi''), Submit] ! 6))) = User"
  by (simp add: unfold_run)

section \<open>The message sequence\<close>

text \<open>
  C8.  Every effect of a resumption of \<^verbatim>\<open>sendMessage\<close> (a chunk of the stream, the
  JSON completion, a failure), performed in any configuration, leaves the length of
  the message sequence and every element but the last unchanged; so does every event
  other than a submission.  A submission only appends.  Hence along every run the
  elements before the last one are never changed again.
\<close>

theorem messages_append_only:
  "(\<forall>f \<in> set (fst (resume p e)).
        length (messages (perform f c)) = length (messages c)
        \<and> butlast (messages (perform f c)) = butlast (messages c))
   \<and> (e \<noteq> Submit \<longrightarrow>
        length (messages (step c e)) = length (messages c)
        \<and> butlast (messages (step c e)) = butlast (messages c))
   \<and> prefix (messages c) (messages (step c Submit))
   \<and> prefix (butlast (messages c)) (butlast (messages (run c es)))"
proof -
  have "prefix (messages c) (messages (step c Submit))"
  proof (cases "blank (input c) \<or> loading c")
    case True
    then have "step c Submit = c" by (rule step_Submit_reject)
    then show ?thesis by simp
  next
    case False
    then show ?thesis by (simp add: step_Submit_accept)
  qed
  then show ?thesis
    using perform_resume_effect(1,2) [of _ p e c] step_frame [of e c] run_butlast_prefix [of c es]
    by blast
qed

theorem messages_append_only_witness:
  "butlast (messages (perform (ReplaceLast \<lparr>sender = Bot, msg_text = js ''Hello''\<rparr>)
      (run init [Typed (js ''hi''), Submit]))) = [\<lparr>sender = User, msg_text = js ''hi''\<rparr>]
   \<and> length (messages (step (run init [Typed (js ''hi''), Submit]) FetchRejected)) = 2
   \<and> prefix [\<lparr>sender = User, msg_text = js ''hi''\<rparr>]
        (butlast (messages (run (run init [Typed (js ''hi''), Submit])
           [FetchRejected, Typed (js ''more''), Submit])))"
proof -
  let ?c = "run init [Typed (js ''hi''), Submit]"
  let ?f = "ReplaceLast \<lparr>sender = Bot, msg_text = js ''Hello''\<rparr>"
  have m: "messages ?c = [\<lparr>sender = User, msg_text = js ''hi''\<rparr>, \<lparr>sender = Bot, msg_text = []\<rparr>]"
    by (simp add: unfold_run)
  have f: "?f \<in> set (fst (resume (AwaitRead (js ''Hel'')) (ReadChunk (js ''lo''))))"
    by (simp add: js_def)
  note t = messages_append_only [of "AwaitRead (js ''Hel'')" "ReadChunk (js ''lo'')" ?c]
  from t f have 1: "butlast (messages (perform ?f ?c)) = butlast (messages ?c)" by blast
  note u = messages_append_only [of Idle FetchRejected ?c "[FetchRejected, Typed (js ''more''), Submit]"]
  from u have 2: "length (messages (step ?c FetchRejected)) = length (messages ?c)" by blast
  from u have 3: "prefix (butlast (messages ?c))
      (butlast (messages (run ?c [FetchRejected, Typed (js ''more''), Submit])))" by blast
  from 1 2 3 show ?thesis unfolding m by simp
qed

section \<open>The order of the two flags\<close>

text \<open>
  C9.  In every configuration passed through from the initial one, effect by effect,
  \<open>isStreaming\<close> implies \<open>loading\<close>: on acceptance \<open>loading\<close> is set before
  \<open>isStreaming\<close>, and on every completion path \<open>isStreaming\<close> is cleared before
  \<open>loading\<close>.
\<close>

theorem streaming_implies_loading:
  "\<forall>s \<in> set (visited init es). isStreaming s \<longrightarrow> loading s"
  by (rule flags_ordered_visited) (simp add: init_def)

theorem streaming_implies_loading_witness:
  "isStreaming (visited init [Typed (js ''hi''), Submit] ! 6)
   \<and> loading (visited init [Typed (js ''hi''), Submit] ! 6)"
proof -
  let ?v = "visited init [Typed (js ''hi''), Submit]"
  have v: "?v ! 6 = \<lparr>messages = [\<lparr>sender = User, msg_text = js ''hi''\<rparr>], input = [],
      loading = False, isStreaming = False, sent = [], pc = Idle\<rparr>\<lparr>loading := True, isStreaming := True\<rparr>"
    by (simp add: unfold_run)
  have "length ?v = 10" by (simp add: unfold_run)
  then have "?v ! 6 \<in> set ?v" by (intro nth_mem) simp
  with streaming_implies_loading [of "[Typed (js ''hi''), Submit]"]
  have "isStreaming (?v ! 6) \<longrightarrow> loading (?v ! 6)" by blast
  moreover have "isStreaming (?v ! 6)" unfolding v by simp
  ultimately show ?thesis by blast
qed

section \<open>The query\<close>

text \<open>
  C10.  For an accepted submission, the text of the appended user message and the query
  of the request are both \<open>trim (input c)\<close>: the input is that text between a blank
  prefix and a blank suffix, and the text neither starts nor ends with white space.
  The input buffer is set to the empty string by the second effect, before the request
  is issued by the sixth.
\<close>

theorem query_is_trimmed_input:
  assumes "\<not> blank (input c)" "\<not> loading c"
  shows "messages (step c Submit) ! length (messages c) = \<lparr>sender = User, msg_text = trim (input c)\<rparr>
         \<and> sent (step c Submit) = sent c @ [trim (input c)]
         \<and> map (\<lambda>s. (input s, sent s)) (states c (fst (handler c Submit))) =
             [(input c, sent c), ([], sent c), ([], sent c), ([], sent c), ([], sent c),
              ([], sent c @ [trim (input c)])]
         \<and> (\<exists>pre suf. input c = pre @ trim (input c) @ suf \<and> blank pre \<and> blank suf)
         \<and> \<not> isWhiteSpace (hd (trim (input c)))
         \<and> \<not> isWhiteSpace (last (trim (input c)))"
proof -
  have ne: "trim (input c) \<noteq> []" using assms(1) by (simp add: trim_Nil_iff)
  show ?thesis
    using assms trim_split [of "input c"] trim_ends [OF ne]
    by (simp add: accept_effects step_Submit_accept nth_append)
qed

theorem query_is_trimmed_input_witness:
  "messages (step (init\<lparr>input := js '' hi  ''\<rparr>) Submit) ! 0 = \<lparr>sender = User, msg_text = js ''hi''\<rparr>
   \<and> sent (step (init\<lparr>input := js '' hi  ''\<rparr>) Submit) = [js ''hi'']
   \<and> input (step (init\<lparr>input := js '' hi  ''\<rparr>) Submit) = []"
proof -
  let ?c = "init\<lparr>input := js '' hi  ''\<rparr>"
  have h1: "\<not> blank (input ?c)" by (simp add: blank_def js_def isWhiteSpace_def)
  have h2: "\<not> loading ?c" by (simp add: init_def)
  have t: "trim (input ?c) = js ''hi''" by (simp add: trim_def js_def isWhiteSpace_def)
  have m: "messages ?c = []" "sent ?c = []" by (simp_all add: init_def)
  have i: "input (step ?c Submit) = []" using h1 h2 by (simp add: step_Submit_accept)
  from query_is_trimmed_input [OF h1 h2] have
    "messages (step ?c Submit) ! length (messages ?c) = \<lparr>sender = User, msg_text = trim (input ?c)\<rparr>"
    "sent (step ?c Submit) = sent ?c @ [trim (input ?c)]"
    by blast+
  then show ?thesis unfolding t m using i by simp
qed

end
